theory Spec2Isabelle
  imports Main
begin

section \<open>JavaScript values\<close>

text \<open>
  The populations and query sets are arrays of integers. A read past the end of an
  array (and a read at index \<open>NaN\<close>) gives \<open>undefined\<close>; arithmetic on \<open>undefined\<close>
  gives \<open>NaN\<close>. These three kinds of value are all the benchmark code ever sees.
\<close>

datatype jsval = Undefined | NaN | Num int

text \<open>\<open>a < b\<close> and \<open>a > b\<close>: false as soon as one side is \<open>undefined\<close> or \<open>NaN\<close>.\<close>

fun js_lt :: "jsval \<Rightarrow> jsval \<Rightarrow> bool" where
  "js_lt (Num a) (Num b) = (a < b)"
| "js_lt _ _ = False"

fun js_gt :: "jsval \<Rightarrow> jsval \<Rightarrow> bool" where
  "js_gt (Num a) (Num b) = (a > b)"
| "js_gt _ _ = False"

text \<open>\<open>a == b\<close>: \<open>undefined == undefined\<close> holds, \<open>NaN\<close> equals nothing.\<close>

fun js_eq :: "jsval \<Rightarrow> jsval \<Rightarrow> bool" where
  "js_eq (Num a) (Num b) = (a = b)"
| "js_eq Undefined Undefined = True"
| "js_eq _ _ = False"

text \<open>\<open>a === b\<close>: on these values it agrees with \<open>==\<close>.\<close>

fun js_strict_eq :: "jsval \<Rightarrow> jsval \<Rightarrow> bool" where
  "js_strict_eq (Num a) (Num b) = (a = b)"
| "js_strict_eq Undefined Undefined = True"
| "js_strict_eq _ _ = False"

text \<open>Truthiness, as tested by \<open>!v\<close>: \<open>undefined\<close>, \<open>NaN\<close> and \<open>0\<close> are falsy.\<close>

fun truthy :: "jsval \<Rightarrow> bool" where
  "truthy (Num a) = (a \<noteq> 0)"
| "truthy _ = False"

text \<open>\<open>v + d\<close> for an integer constant \<open>d\<close> (also \<open>v++\<close> and \<open>v - 1\<close>).\<close>

fun js_add :: "jsval \<Rightarrow> int \<Rightarrow> jsval" where
  "js_add (Num a) d = Num (a + d)"
| "js_add _ d = NaN"

text \<open>\<open>arr[index]\<close>: the element, or \<open>undefined\<close> outside \<open>[0, arr.length)\<close>.\<close>

fun js_get :: "int list \<Rightarrow> jsval \<Rightarrow> jsval" where
  "js_get arr (Num i) = (if 0 \<le> i \<and> i < int (length arr) then Num (arr ! nat i) else Undefined)"
| "js_get arr _ = Undefined"

section \<open>The iterative tricksearch of index.js\<close>

text \<open>The loop \<open>while (set[index] < target) index++\<close>; the result is the final index.\<close>

function scan_while :: "int list \<Rightarrow> jsval \<Rightarrow> jsval \<Rightarrow> jsval" where
  "scan_while sett index target =
     (if js_lt (js_get sett index) target then scan_while sett (js_add index 1) target
      else index)"
  by pat_completeness auto
termination
proof (relation "measure (\<lambda>(sett, index, target).
         (case index of Num i \<Rightarrow> nat (int (length sett) - i) | _ \<Rightarrow> 0))")
  show "wf (measure (\<lambda>(sett, index, target).
         (case index of Num i \<Rightarrow> nat (int (length sett) - i) | _ \<Rightarrow> 0)))"
    by simp
next
  fix sett :: "int list" and index target :: jsval
  assume lt: "js_lt (js_get sett index) target"
  then obtain i where i: "index = Num i"
    by (cases index) simp_all
  with lt have "0 \<le> i \<and> i < int (length sett)"
    by (cases "0 \<le> i \<and> i < int (length sett)") simp_all
  with i show "((sett, js_add index 1, target), (sett, index, target))
      \<in> measure (\<lambda>(sett, index, target).
         (case index of Num i \<Rightarrow> nat (int (length sett) - i) | _ \<Rightarrow> 0))"
    by simp
qed

declare scan_while.simps [simp del]

text \<open>
  \<open>tricksearch(set, index, target)\<close> of index.js. The first branch is empty and the
  chain has no branch for \<open>set[index] == target\<close>: both fall off the end of the
  function, which returns \<open>undefined\<close>. The third branch repeats the loop of the second.
\<close>

definition tricksearch :: "int list \<Rightarrow> jsval \<Rightarrow> jsval \<Rightarrow> jsval" where
  "tricksearch sett index target =
     (if \<not> truthy (js_get sett index) then Undefined
      else if js_lt (js_get sett index) target then
        (let index' = scan_while sett index target in
         if js_eq (js_get sett index') target then index' else Num (- 1))
      else if js_gt (js_get sett index) target then
        (let index' = scan_while sett index target in
         if js_eq (js_get sett index') target then index' else Num (- 1))
      else Undefined)"


section \<open>The recursive tricksearch of the earlier variant\<close>

text \<open>
  The repository holds a second copy of the routes, an earlier variant of index.js
  (counts 2000 and 1000000, a query set drawn inside each route). Its tricksearch is
  recursive. A call recurses forwards only from a cell below the target whose right
  neighbour is not above it, and backwards only from a cell above the target; the
  measure below decreases along both.
\<close>

definition rec_measure :: "int list \<Rightarrow> jsval \<Rightarrow> jsval \<Rightarrow> nat" where
  "rec_measure sett index target =
     (case index of
        Num i \<Rightarrow>
          if js_lt (js_get sett index) target \<and> \<not> js_gt (js_get sett (js_add index 1)) target
          then nat (int (length sett) - i)
          else if js_gt (js_get sett index) target then nat (i + 1)
          else 0
      | _ \<Rightarrow> 0)"

function tricksearch_rec :: "int list \<Rightarrow> jsval \<Rightarrow> jsval \<Rightarrow> jsval" where
  "tricksearch_rec sett index target =
     (if js_eq (js_get sett index) target then index
      else if js_lt index (Num 0) then Num (- 1)
      else if js_gt index (Num (int (length sett))) then Num (- 1)
      else if js_lt (js_get sett index) target \<and> js_gt (js_get sett (js_add index 1)) target
        then Num (- 1)
      else if js_lt (js_get sett index) target then tricksearch_rec sett (js_add index 1) target
      else if js_gt (js_get sett index) target then tricksearch_rec sett (js_add index (- 1)) target
      else Undefined)"
  by pat_completeness auto
termination
proof (relation "measure (\<lambda>(sett, index, target). rec_measure sett index target)")
  show "wf (measure (\<lambda>(sett, index, target). rec_measure sett index target))"
    by simp
next
  fix sett :: "int list" and index target :: jsval
  assume nrev: "\<not> (js_lt (js_get sett index) target \<and> js_gt (js_get sett (js_add index 1)) target)"
    and lt: "js_lt (js_get sett index) target"
  from lt obtain i where i: "index = Num i"
    by (cases index) simp_all
  with lt have range: "0 \<le> i \<and> i < int (length sett)"
    by (cases "0 \<le> i \<and> i < int (length sett)") simp_all
  from nrev lt have ngt: "\<not> js_gt (js_get sett (Num (i + 1))) target"
    using i by simp
  have here: "rec_measure sett index target = nat (int (length sett) - i)"
    using lt ngt i by (simp add: rec_measure_def del: js_get.simps)
  have there: "rec_measure sett (Num (i + 1)) target \<le> nat (int (length sett) - (i + 1))"
    using ngt by (simp add: rec_measure_def del: js_get.simps)
  show "((sett, js_add index 1, target), (sett, index, target))
      \<in> measure (\<lambda>(sett, index, target). rec_measure sett index target)"
    using here there range i by (simp del: js_get.simps) linarith
next
  fix sett :: "int list" and index target :: jsval
  assume nlt: "\<not> js_lt (js_get sett index) target"
    and gt: "js_gt (js_get sett index) target"
  from gt obtain i where i: "index = Num i"
    by (cases index) simp_all
  with gt have range: "0 \<le> i \<and> i < int (length sett)"
    by (cases "0 \<le> i \<and> i < int (length sett)") simp_all
  have here: "rec_measure sett index target = nat (i + 1)"
    using nlt gt i by (simp add: rec_measure_def del: js_get.simps)
  have "js_gt (js_get sett (js_add (Num (i - 1)) 1)) target"
    using gt i by simp
  then have there: "rec_measure sett (Num (i - 1)) target \<le> nat i"
    by (simp add: rec_measure_def del: js_get.simps)
  show "((sett, js_add index (- 1), target), (sett, index, target))
      \<in> measure (\<lambda>(sett, index, target). rec_measure sett index target)"
    using here there range i by (simp del: js_get.simps) linarith
qed

declare tricksearch_rec.simps [simp del]

section \<open>Binary search\<close>

text \<open>The \<open>while (low <= high)\<close> loop of \<open>binsearch\<close>, on the loop variables.\<close>

function binsearch_loop :: "int list \<Rightarrow> jsval \<Rightarrow> int \<Rightarrow> int \<Rightarrow> jsval" where
  "binsearch_loop nums target low high =
     (if low \<le> high then
        (if js_strict_eq (js_get nums (Num ((high - low) div 2 + low))) target
           then Num ((high - low) div 2 + low)
         else if js_gt (js_get nums (Num ((high - low) div 2 + low))) target
           then binsearch_loop nums target low ((high - low) div 2 + low - 1)
         else binsearch_loop nums target ((high - low) div 2 + low + 1) high)
      else Num (- 1))"
  by pat_completeness auto
termination
  by (relation "measure (\<lambda>(nums, target, low, high). nat (high - low + 1))") auto

declare binsearch_loop.simps [simp del]

definition binsearch :: "int list \<Rightarrow> jsval \<Rightarrow> jsval" where
  "binsearch nums target = binsearch_loop nums target 0 (int (length nums) - 1)"

section \<open>The hash map\<close>

text \<open>
  A \<open>Map\<close> from keys to positions. The build loop
  \<open>for (let i = 0; i < dataset.length; i++) map.set(dataset[i], i)\<close> runs on the
  loop variable; \<open>map.set\<close> overwrites the position of a key already present.
\<close>

type_synonym jsmap = "jsval \<rightharpoonup> int"

function hashtable_build_loop :: "int list \<Rightarrow> nat \<Rightarrow> jsmap \<Rightarrow> jsmap" where
  "hashtable_build_loop population i m =
     (if i < length population
      then hashtable_build_loop population (Suc i) (m(js_get population (Num (int i)) \<mapsto> int i))
      else m)"
  by pat_completeness auto
termination
  by (relation "measure (\<lambda>(population, i, m). length population - i)") auto

declare hashtable_build_loop.simps [simp del]

definition hashtable_build :: "int list \<Rightarrow> jsmap" where
  "hashtable_build population = hashtable_build_loop population 0 Map.empty"

text \<open>
  The lookup of the query loop:
  \<open>if (map.has(k)) result = map.get(k); else result = -1\<close>.
\<close>

definition map_has :: "jsmap \<Rightarrow> jsval \<Rightarrow> bool" where
  "map_has m k = (m k \<noteq> None)"

definition map_get :: "jsmap \<Rightarrow> jsval \<Rightarrow> jsval" where
  "map_get m k = (case m k of Some pos \<Rightarrow> Num pos | None \<Rightarrow> Undefined)"

definition hashtable_lookup :: "jsmap \<Rightarrow> jsval \<Rightarrow> jsval" where
  "hashtable_lookup m k = (if map_has m k then map_get m k else Num (- 1))"


section \<open>The sorted array\<close>

text \<open>
  \<open>arr.sort((a, b) => a - b)\<close>. The comparator is the program's; the sorting algorithm
  is the engine's, which the language fixes only as a stable sort that places \<open>a\<close>
  before \<open>b\<close> when the comparator is negative. It is modelled as a stable insertion
  sort driven by the comparator.
\<close>

definition compare_fn :: "int \<Rightarrow> int \<Rightarrow> int" where
  "compare_fn a b = a - b"

fun insert_by :: "(int \<Rightarrow> int \<Rightarrow> int) \<Rightarrow> int \<Rightarrow> int list \<Rightarrow> int list" where
  "insert_by cmp x [] = [x]"
| "insert_by cmp x (y # ys) = (if cmp x y \<le> 0 then x # y # ys else y # insert_by cmp x ys)"

definition js_sort :: "(int \<Rightarrow> int \<Rightarrow> int) \<Rightarrow> int list \<Rightarrow> int list" where
  "js_sort cmp xs = foldr (insert_by cmp) xs []"

text \<open>
  Arrays are objects: \<open>sort\<close> reorders the array it is called on and returns that same
  array, \<open>slice(0)\<close> allocates a new one. The heap is the list of all arrays allocated
  so far and a reference is a position in it.
\<close>

type_synonym ref = nat
type_synonym heap = "int list list"

definition slice0 :: "heap \<Rightarrow> ref \<Rightarrow> heap \<times> ref" where
  "slice0 h a = (h @ [h ! a], length h)"

definition sort_in_place :: "heap \<Rightarrow> ref \<Rightarrow> heap \<times> ref" where
  "sort_in_place h a = (h[a := js_sort compare_fn (h ! a)], a)"

text \<open>
  The build phase of \<open>binarysearch_normal\<close>, \<open>binarysearch_uniform\<close>, \<open>trick_normal\<close>
  and \<open>trick_uniform\<close> in index.js:
  \<^verbatim>\<open>let set = dataset.slice(0); let arr = set.sort(cmp).slice(0);\<close>
  \<^verbatim>\<open>let sett = dataset.slice(0); let array = sett.sort(cmp);\<close>
  The result is the heap afterwards and the reference held by \<open>array\<close>.
\<close>

definition sorted_array_build :: "heap \<Rightarrow> ref \<Rightarrow> heap \<times> ref" where
  "sorted_array_build h dataset_ref =
     (let (h1, set_ref) = slice0 h dataset_ref;
          (h2, sorted_ref) = sort_in_place h1 set_ref;
          (h3, arr) = slice0 h2 sorted_ref;
          (h4, sett_ref) = slice0 h3 dataset_ref;
          (h5, array) = sort_in_place h4 sett_ref
      in (h5, array))"

text \<open>
  The build phase of the same four routes in the earlier variant:
  \<^verbatim>\<open>let arr = dataset.sort(cmp); let array = dataset.sort(cmp);\<close>
\<close>

definition sorted_array_build_earlier :: "heap \<Rightarrow> ref \<Rightarrow> heap \<times> ref" where
  "sorted_array_build_earlier h dataset_ref =
     (let (h1, arr) = sort_in_place h dataset_ref;
          (h2, array) = sort_in_place h1 dataset_ref
      in (h2, array))"

section \<open>The shared state and the timed query passes\<close>

text \<open>
  The globals of index.js. \<open>distribution\<close> is declared without a value and assigned by
  \<open>generatenum_normal\<close> only. The gaussian library is not part of the program: a
  distribution object is represented by the rank guess it gives,
  \<open>x \<mapsto> Math.floor(num_nor * distribution.cdf(x))\<close>.
\<close>

record state =
  dataset :: "int list"
  testset :: "int list"
  distribution :: "(jsval \<Rightarrow> jsval) option"

definition initial_state :: state where
  "initial_state = \<lparr>dataset = [], testset = [], distribution = None\<rparr>"

definition num_nor :: nat where
  "num_nor = 20000"

definition num_uni :: nat where
  "num_uni = 10000000"

definition low :: int where
  "low = 0"

definition high :: int where
  "high = 10000000"

text \<open>
  The two errors a timed pass can throw: the \<open>TypeError\<close> of reading a property of
  \<open>undefined\<close>, and the error the tree library throws on keys it cannot compare.
\<close>

datatype jserror = TypeError | CompareError

text \<open>
  Every timed pass is the loop \<open>while (index < num) { lookup(testset[index]); index++ }\<close>
  with \<open>num\<close> one of the two configured counts. The program discards each result; the
  model keeps the key and the result of every iteration, in order. A lookup that throws
  ends the pass.
\<close>

function query_loop ::
  "(jsval \<Rightarrow> jserror + 'r) \<Rightarrow> int list \<Rightarrow> nat \<Rightarrow> nat \<Rightarrow> jserror + (jsval \<times> 'r) list" where
  "query_loop lookup tests num index =
     (if index < num then
        (case lookup (js_get tests (Num (int index))) of
           Inl e \<Rightarrow> Inl e
         | Inr result \<Rightarrow>
             (case query_loop lookup tests num (Suc index) of
                Inl e \<Rightarrow> Inl e
              | Inr log \<Rightarrow> Inr ((js_get tests (Num (int index)), result) # log)))
      else Inr [])"
  by pat_completeness auto
termination
  by (relation "measure (\<lambda>(lookup, tests, num, index). num - index)") auto

declare query_loop.simps [simp del]

text \<open>The keys a pass looked up, in order.\<close>

definition lookup_keys :: "jserror + (jsval \<times> 'r) list \<Rightarrow> jsval list" where
  "lookup_keys r = (case r of Inl e \<Rightarrow> [] | Inr log \<Rightarrow> map fst log)"

text \<open>\<open>hashtable_normal\<close> (\<open>num = num_nor\<close>) and \<open>hashtable_uniform\<close> (\<open>num = num_uni\<close>).\<close>

definition hashtable_query :: "nat \<Rightarrow> state \<Rightarrow> jserror + (jsval \<times> jsval) list" where
  "hashtable_query num s =
     query_loop (\<lambda>k. Inr (hashtable_lookup (hashtable_build (dataset s)) k)) (testset s) num 0"

text \<open>\<open>binarysearch_normal\<close> and \<open>binarysearch_uniform\<close>.\<close>

definition binarysearch_query :: "nat \<Rightarrow> state \<Rightarrow> jserror + (jsval \<times> jsval) list" where
  "binarysearch_query num s =
     query_loop (\<lambda>k. Inr (binsearch (js_sort compare_fn (dataset s)) k)) (testset s) num 0"

text \<open>
  \<open>avl_normal\<close> and \<open>avl_uniform\<close>:
  \<open>if (avl.search(k).length > 0) result = avl.search(k); else result = -1\<close>.
  The tree library is not part of the program: \<open>search\<close> stands for \<open>avl.search\<close> on
  the tree built from the dataset. It returns the positions stored under the key, or it
  throws: the library compares the key with the keys of the tree and throws an error
  when it cannot order them, as for an \<open>undefined\<close> key against a number. An iteration
  records how many times it called \<open>search\<close> and its result, \<open>None\<close> for \<open>-1\<close>.
\<close>

definition avl_lookup ::
  "(jsval \<Rightarrow> jserror + int list) \<Rightarrow> jsval \<Rightarrow> jserror + nat \<times> int list option" where
  "avl_lookup search k =
     (case search k of
        Inl e \<Rightarrow> Inl e
      | Inr positions \<Rightarrow>
          if length positions > 0
          then (case search k of Inl e \<Rightarrow> Inl e | Inr result \<Rightarrow> Inr (2, Some result))
          else Inr (1, None))"

definition avl_query ::
  "(int list \<Rightarrow> jsval \<Rightarrow> jserror + int list) \<Rightarrow> nat \<Rightarrow> state
     \<Rightarrow> jserror + (jsval \<times> nat \<times> int list option) list" where
  "avl_query avl_search num s =
     query_loop (avl_lookup (avl_search (dataset s))) (testset s) num 0"

text \<open>
  \<open>trick_normal\<close>: the guess is \<open>Math.floor(num_nor * distribution.cdf(testset[i]))\<close>;
  reading \<open>cdf\<close> of an undefined \<open>distribution\<close> throws.
\<close>

definition trick_normal_query :: "state \<Rightarrow> jserror + (jsval \<times> jsval) list" where
  "trick_normal_query s =
     query_loop (\<lambda>k. case distribution s of
                        None \<Rightarrow> Inl TypeError
                      | Some guess \<Rightarrow> Inr (tricksearch (js_sort compare_fn (dataset s)) (guess k) k))
       (testset s) num_nor 0"

text \<open>
  \<open>trick_uniform\<close>: the guess is
  \<open>Math.floor(num_uni * (testset[index] - low) / (high - low))\<close>, which is the integer
  quotient rounded down for an integer key (the product of a sampled key stays far below
  \<open>2^53\<close>, so the floating-point quotient rounds down to the same integer) and \<open>NaN\<close>
  for \<open>undefined\<close>.
\<close>

definition uniform_guess :: "jsval \<Rightarrow> jsval" where
  "uniform_guess k =
     (case k of Num t \<Rightarrow> Num ((int num_uni * (t - low)) div (high - low)) | _ \<Rightarrow> NaN)"

definition trick_uniform_query :: "state \<Rightarrow> jserror + (jsval \<times> jsval) list" where
  "trick_uniform_query s =
     query_loop (\<lambda>k. Inr (tricksearch (js_sort compare_fn (dataset s)) (uniform_guess k) k))
       (testset s) num_uni 0"


section \<open>The correction scan of the specification\<close>

text \<open>
  The scan as the specification words it, for comparison with the two tricksearch
  functions: from the guess, advance from a cell below the key and retreat from a cell
  above it; stop on an exact match, on leaving \<open>[0, N)\<close>, and on a sign reversal
  between adjacent cells. The result is the index of the match, or \<open>None\<close> for
  "not found".
\<close>

definition scan_measure :: "int list \<Rightarrow> int \<Rightarrow> int \<Rightarrow> nat" where
  "scan_measure array g key =
     (if g < 0 \<or> int (length array) \<le> g then 0
      else if array ! nat g = key then 0
      else if array ! nat g < key then
        (if g + 1 < int (length array) \<and> key < array ! nat (g + 1) then 0
         else nat (int (length array) - g))
      else
        (if 0 \<le> g - 1 \<and> array ! nat (g - 1) < key then 0 else nat (g + 1)))"

function spec_correction_scan :: "int list \<Rightarrow> int \<Rightarrow> int \<Rightarrow> int option" where
  "spec_correction_scan array g key =
     (if g < 0 \<or> int (length array) \<le> g then None
      else if array ! nat g = key then Some g
      else if array ! nat g < key then
        (if g + 1 < int (length array) \<and> key < array ! nat (g + 1) then None
         else spec_correction_scan array (g + 1) key)
      else
        (if 0 \<le> g - 1 \<and> array ! nat (g - 1) < key then None
         else spec_correction_scan array (g - 1) key))"
  by pat_completeness auto
termination
proof (relation "measure (\<lambda>(array, g, key). scan_measure array g key)")
  show "wf (measure (\<lambda>(array, g, key). scan_measure array g key))"
    by simp
next
  fix array :: "int list" and g key :: int
  assume range: "\<not> (g < 0 \<or> int (length array) \<le> g)"
    and below: "array ! nat g < key"
    and nrev: "\<not> (g + 1 < int (length array) \<and> key < array ! nat (g + 1))"
  have here: "scan_measure array g key = nat (int (length array) - g)"
    using range below nrev by (simp add: scan_measure_def)
  have there: "scan_measure array (g + 1) key \<le> nat (int (length array) - (g + 1))"
    using range below nrev by (auto simp add: scan_measure_def)
  show "((array, g + 1, key), (array, g, key))
      \<in> measure (\<lambda>(array, g, key). scan_measure array g key)"
    using here there range by simp linarith
next
  fix array :: "int list" and g key :: int
  assume range: "\<not> (g < 0 \<or> int (length array) \<le> g)"
    and nhit: "array ! nat g \<noteq> key"
    and nbelow: "\<not> array ! nat g < key"
    and nrev: "\<not> (0 \<le> g - 1 \<and> array ! nat (g - 1) < key)"
  have here: "scan_measure array g key = nat (g + 1)"
    using range nhit nbelow nrev by (simp add: scan_measure_def)
  have there: "scan_measure array (g - 1) key \<le> nat g"
    using range nrev by (auto simp add: scan_measure_def)
  show "((array, g - 1, key), (array, g, key))
      \<in> measure (\<lambda>(array, g, key). scan_measure array g key)"
    using here there range by simp linarith
qed

declare spec_correction_scan.simps [simp del]

text \<open>
  What a result of tricksearch reports: an index when it is a number from 0 on, nothing
  found when it is \<open>-1\<close> or \<open>undefined\<close>.
\<close>

fun found_index :: "jsval \<Rightarrow> int option" where
  "found_index (Num i) = (if 0 \<le> i then Some i else None)"
| "found_index _ = None"

section \<open>Properties of the iterative tricksearch\<close>

lemma tricksearch_falsy:
  "\<not> truthy (js_get sett index) \<Longrightarrow> tricksearch sett index target = Undefined"
  by (simp add: tricksearch_def)

lemma js_get_outside:
  "g < 0 \<or> int (length sett) \<le> g \<Longrightarrow> js_get sett (Num g) = Undefined"
  by auto

lemma js_get_inside:
  "0 \<le> g \<Longrightarrow> g < int (length sett) \<Longrightarrow> js_get sett (Num g) = Num (sett ! nat g)"
  by simp

lemma js_get_nth: "i < length P \<Longrightarrow> js_get P (Num (int i)) = Num (P ! i)"
  by simp

lemma tricksearch_outside:
  "g < 0 \<or> int (length sett) \<le> g \<Longrightarrow> tricksearch sett (Num g) target = Undefined"
  using js_get_outside [of g sett] by (simp add: tricksearch_def)

lemma tricksearch_empty: "tricksearch [] index target = Undefined"
  by (cases index) (simp_all add: tricksearch_def)

text \<open>An exact hit at the guess matches no branch of the chain.\<close>

lemma tricksearch_exact_hit:
  "js_get sett index = target \<Longrightarrow> tricksearch sett index target = Undefined"
  by (cases target) (simp_all add: tricksearch_def)

text \<open>From a cell above the target the loop of the third branch never runs.\<close>

lemma tricksearch_above:
  "js_gt (js_get sett index) target \<Longrightarrow> tricksearch sett index target \<in> {Undefined, Num (- 1)}"
proof -
  assume gt: "js_gt (js_get sett index) target"
  then have nlt: "\<not> js_lt (js_get sett index) target"
    by (cases "js_get sett index"; cases target) simp_all
  then have stay: "scan_while sett index target = index"
    by (subst scan_while.simps) simp
  from gt have neq: "\<not> js_eq (js_get sett index) target"
    by (cases "js_get sett index"; cases target) simp_all
  show ?thesis
    using gt nlt neq stay by (simp add: tricksearch_def)
qed

text \<open>So the iterative tricksearch reports an index only when the guess lies below the target.\<close>

lemma tricksearch_finds_only_from_below:
  "found_index (tricksearch sett index target) = Some i \<Longrightarrow> js_lt (js_get sett index) target"
proof (rule ccontr)
  assume found: "found_index (tricksearch sett index target) = Some i"
    and nlt: "\<not> js_lt (js_get sett index) target"
  show False
  proof (cases "js_gt (js_get sett index) target")
    case True
    then have "tricksearch sett index target \<in> {Undefined, Num (- 1)}"
      by (rule tricksearch_above)
    with found show False by auto
  next
    case False
    with nlt have "tricksearch sett index target = Undefined"
      by (simp add: tricksearch_def)
    with found show False by simp
  qed
qed

text \<open>
  In particular the smallest key of a population is reported from no guess at all.
\<close>

lemma tricksearch_misses_smallest_key:
  "sorted sett \<Longrightarrow> sett \<noteq> [] \<Longrightarrow> found_index (tricksearch sett index (Num (hd sett))) = None"
proof (rule ccontr)
  assume srt: "sorted sett" and ne: "sett \<noteq> []"
    and "found_index (tricksearch sett index (Num (hd sett))) \<noteq> None"
  then obtain i where "found_index (tricksearch sett index (Num (hd sett))) = Some i"
    by blast
  then have lt: "js_lt (js_get sett index) (Num (hd sett))"
    by (rule tricksearch_finds_only_from_below)
  then obtain g where g: "index = Num g"
    by (cases index) simp_all
  with lt have range: "0 \<le> g \<and> g < int (length sett)"
    by (cases "0 \<le> g \<and> g < int (length sett)") simp_all
  with lt g have below: "sett ! nat g < hd sett"
    by simp
  have "nat g < length sett"
    using range by linarith
  then have "sett ! 0 \<le> sett ! nat g"
    using srt by (intro sorted_nth_mono) simp_all
  then have "hd sett \<le> sett ! nat g"
    using ne by (simp add: hd_conv_nth)
  with below show False by simp
qed

text \<open>
  Claim C10. In the iterative tricksearch of index.js a falsy element at the guess index
  makes the function return \<open>undefined\<close>, not \<open>-1\<close>: so it is for a guess outside the
  array (every guess, when the array is empty) and for a guess at which the array
  holds 0; a lookup of the present key 0 started at its own position returns
  \<open>undefined\<close>.
\<close>

theorem tricksearch_falsy_guess_undefined:
  "(\<not> truthy (js_get sett index) \<longrightarrow> tricksearch sett index target = Undefined)
   \<and> (g < 0 \<or> int (length sett) \<le> g \<longrightarrow> tricksearch sett (Num g) target = Undefined)
   \<and> tricksearch [] index target = Undefined
   \<and> (0 \<le> g \<and> g < int (length sett) \<and> sett ! nat g = 0 \<longrightarrow>
        tricksearch sett (Num g) target = Undefined
        \<and> tricksearch sett (Num g) (Num 0) = Undefined)"
proof -
  have zero: "tricksearch sett (Num g) t = Undefined"
    if "0 \<le> g \<and> g < int (length sett) \<and> sett ! nat g = 0" for t
    using that by (intro tricksearch_falsy) simp
  show ?thesis
    using tricksearch_falsy [of sett index target] tricksearch_outside [of g sett target]
      tricksearch_empty [of index target] zero by blast
qed

theorem tricksearch_falsy_guess_undefined_witness:
  "\<not> truthy (js_get [- 3, 0, 4] (Num 1))
   \<and> tricksearch [- 3, 0, 4] (Num 1) (Num 0) = Undefined
   \<and> ((7::int) < 0 \<or> int (length [- 3, 0, 4 :: int]) \<le> 7)
   \<and> tricksearch [- 3, 0, 4] (Num 7) (Num 4) = Undefined
   \<and> tricksearch [] (Num 0) (Num 4) = Undefined
   \<and> (0 \<le> (1::int) \<and> 1 < int (length [- 3, 0, 4 :: int]) \<and> [- 3, 0, 4 :: int] ! nat 1 = 0)"
  using tricksearch_falsy_guess_undefined [of "[- 3, 0, 4]" "Num 1" "Num 0" 7]
    tricksearch_falsy_guess_undefined [of "[- 3, 0, 4]" "Num 0" "Num 4" 7]
    tricksearch_falsy_guess_undefined [of "[- 3, 0, 4]" "Num 0" "Num 4" 1]
  by simp

section \<open>The recursive tricksearch and the scan of the specification\<close>

lemma tricksearch_rec_outside:
  "g < 0 \<or> int (length sett) \<le> g \<Longrightarrow> target \<noteq> Undefined \<Longrightarrow>
   tricksearch_rec sett (Num g) target = (if g = int (length sett) then Undefined else Num (- 1))"
proof -
  assume out: "g < 0 \<or> int (length sett) \<le> g" and target: "target \<noteq> Undefined"
  have get: "js_get sett (Num g) = Undefined"
    using out by auto
  have neq: "\<not> js_eq Undefined target"
    using target by (cases target) simp_all
  have nlt: "\<not> js_lt Undefined target" and ngt: "\<not> js_gt Undefined target"
    by simp_all
  show ?thesis
    using out get neq nlt ngt
    by (subst tricksearch_rec.simps) (auto simp del: js_get.simps)
qed

lemma tricksearch_rec_undefined_target:
  "g < 0 \<or> int (length sett) \<le> g \<Longrightarrow> tricksearch_rec sett (Num g) Undefined = Num g"
  by (subst tricksearch_rec.simps) auto

text \<open>The recursive tricksearch computes the correction scan of the specification.\<close>

lemma tricksearch_rec_refines_scan:
  "found_index (tricksearch_rec sett (Num g) (Num t)) = spec_correction_scan sett g t"
proof (induction sett g t rule: spec_correction_scan.induct)
  case (1 array g key)
  show ?case
  proof (cases "g < 0 \<or> int (length array) \<le> g")
    case out: True
    then have "js_get array (Num g) = Undefined"
      by auto
    then have "tricksearch_rec array (Num g) (Num key)
        = (if g = int (length array) then Undefined else Num (- 1))"
      using out by (subst tricksearch_rec.simps) (auto simp del: js_get.simps)
    moreover have "spec_correction_scan array g key = None"
      using out by (subst spec_correction_scan.simps) auto
    ultimately show ?thesis by simp
  next
    case inside: False
    then have range: "0 \<le> g" "g < int (length array)"
      by simp_all
    have get: "js_get array (Num g) = Num (array ! nat g)"
      using range by (rule js_get_inside)
    show ?thesis
    proof (cases "array ! nat g = key")
      case hit: True
      have "tricksearch_rec array (Num g) (Num key) = Num g"
        using get hit by (subst tricksearch_rec.simps) (simp del: js_get.simps)
      moreover have "spec_correction_scan array g key = Some g"
        using inside hit by (subst spec_correction_scan.simps) auto
      ultimately show ?thesis using range by simp
    next
      case nhit: False
      show ?thesis
      proof (cases "array ! nat g < key")
        case below: True
        show ?thesis
        proof (cases "g + 1 < int (length array) \<and> key < array ! nat (g + 1)")
          case rev: True
          then have next_get: "js_get array (Num (g + 1)) = Num (array ! nat (g + 1))"
            using range by (intro js_get_inside) simp_all
          have "tricksearch_rec array (Num g) (Num key) = Num (- 1)"
            using get next_get nhit below rev range
            by (subst tricksearch_rec.simps) (simp del: js_get.simps)
          moreover have "spec_correction_scan array g key = None"
            using inside nhit below rev by (subst spec_correction_scan.simps) auto
          ultimately show ?thesis by simp
        next
          case nrev: False
          have ngt: "\<not> js_gt (js_get array (Num (g + 1))) (Num key)"
            using nrev range by auto
          have "tricksearch_rec array (Num g) (Num key)
              = tricksearch_rec array (Num (g + 1)) (Num key)"
            using get ngt nhit below range
            by (subst tricksearch_rec.simps) (simp del: js_get.simps)
          moreover have "spec_correction_scan array g key = spec_correction_scan array (g + 1) key"
            using inside nhit below nrev by (subst spec_correction_scan.simps) auto
          moreover have "found_index (tricksearch_rec array (Num (g + 1)) (Num key))
              = spec_correction_scan array (g + 1) key"
            using inside nhit below nrev by (rule "1.IH"(1))
          ultimately show ?thesis by simp
        qed
      next
        case nbelow: False
        then have above: "key < array ! nat g"
          using nhit by simp
        have step: "tricksearch_rec array (Num g) (Num key)
            = tricksearch_rec array (Num (g - 1)) (Num key)"
          using get nhit nbelow above range
          by (subst tricksearch_rec.simps) (simp del: js_get.simps)
        show ?thesis
        proof (cases "0 \<le> g - 1 \<and> array ! nat (g - 1) < key")
          case rev: True
          then have prev_get: "js_get array (Num (g - 1)) = Num (array ! nat (g - 1))"
            using range by (intro js_get_inside) simp_all
          have "tricksearch_rec array (Num (g - 1)) (Num key) = Num (- 1)"
            using get prev_get above rev range
            by (subst tricksearch_rec.simps) (simp del: js_get.simps)
          moreover have "spec_correction_scan array g key = None"
            using inside nhit nbelow rev by (subst spec_correction_scan.simps) auto
          ultimately show ?thesis using step by simp
        next
          case nrev: False
          have "spec_correction_scan array g key = spec_correction_scan array (g - 1) key"
            using inside nhit nbelow nrev by (subst spec_correction_scan.simps) auto
          moreover have "found_index (tricksearch_rec array (Num (g - 1)) (Num key))
              = spec_correction_scan array (g - 1) key"
            using inside nhit nbelow nrev by (rule "1.IH"(2))
          ultimately show ?thesis using step by simp
        qed
      qed
    qed
  qed
qed

lemma spec_correction_scan_finds:
  "sorted sett \<Longrightarrow> 0 \<le> g \<Longrightarrow> g < int (length sett) \<Longrightarrow> j < length sett \<Longrightarrow> sett ! j = t \<Longrightarrow>
   \<exists>i. spec_correction_scan sett g t = Some (int i) \<and> i < length sett \<and> sett ! i = t"
proof (induction sett g t arbitrary: j rule: spec_correction_scan.induct)
  case (1 array g key)
  have inside: "\<not> (g < 0 \<or> int (length array) \<le> g)"
    using "1.prems" by simp
  show ?case
  proof (cases "array ! nat g = key")
    case hit: True
    have "spec_correction_scan array g key = Some (int (nat g))"
      using inside hit "1.prems"(2) by (subst spec_correction_scan.simps) auto
    moreover have "nat g < length array"
      using "1.prems" by simp
    ultimately show ?thesis using hit by blast
  next
    case nhit: False
    show ?thesis
    proof (cases "array ! nat g < key")
      case below: True
      have after: "nat g < j"
      proof (rule ccontr)
        assume "\<not> nat g < j"
        then have "j \<le> nat g" and "nat g < length array"
          using "1.prems" by simp_all
        then have "array ! j \<le> array ! nat g"
          using "1.prems"(1) by (simp add: sorted_nth_mono)
        then show False using below "1.prems"(5) by simp
      qed
      then have next_in: "g + 1 < int (length array)"
        using "1.prems" by simp
      have "array ! nat (g + 1) \<le> array ! j"
        using after "1.prems" by (intro sorted_nth_mono) simp_all
      then have nrev: "\<not> (g + 1 < int (length array) \<and> key < array ! nat (g + 1))"
        using "1.prems"(5) by simp
      have "spec_correction_scan array g key = spec_correction_scan array (g + 1) key"
        using inside nhit below nrev by (subst spec_correction_scan.simps) auto
      moreover have "\<exists>i. spec_correction_scan array (g + 1) key = Some (int i) \<and> i < length array
          \<and> array ! i = key"
        using inside nhit below nrev "1.prems"(1) _ next_in "1.prems"(4,5)
        by (rule "1.IH"(1)) (use "1.prems"(2) in simp)
      ultimately show ?thesis by simp
    next
      case nbelow: False
      then have above: "key < array ! nat g"
        using nhit by simp
      have before: "j < nat g"
      proof (rule ccontr)
        assume "\<not> j < nat g"
        then have "nat g \<le> j"
          by simp
        then have "array ! nat g \<le> array ! j"
          using "1.prems" by (intro sorted_nth_mono) simp_all
        then show False using above "1.prems"(5) by simp
      qed
      then have prev_in: "0 \<le> g - 1"
        by simp
      have "array ! j \<le> array ! nat (g - 1)"
        using before "1.prems" by (intro sorted_nth_mono) simp_all
      then have nrev: "\<not> (0 \<le> g - 1 \<and> array ! nat (g - 1) < key)"
        using "1.prems"(5) by simp
      have "spec_correction_scan array g key = spec_correction_scan array (g - 1) key"
        using inside nhit nbelow nrev by (subst spec_correction_scan.simps) auto
      moreover have "\<exists>i. spec_correction_scan array (g - 1) key = Some (int i) \<and> i < length array
          \<and> array ! i = key"
        using inside nhit nbelow nrev "1.prems"(1) prev_in _ "1.prems"(4,5)
        by (rule "1.IH"(2)) (use "1.prems"(3) in simp)
      ultimately show ?thesis by simp
    qed
  qed
qed

lemma tricksearch_rec_finds:
  "sorted sett \<Longrightarrow> 0 \<le> g \<Longrightarrow> g < int (length sett) \<Longrightarrow> t \<in> set sett \<Longrightarrow>
   \<exists>i. tricksearch_rec sett (Num g) (Num t) = Num (int i) \<and> i < length sett \<and> sett ! i = t"
proof -
  assume srt: "sorted sett" and range: "0 \<le> g" "g < int (length sett)" and present: "t \<in> set sett"
  from present obtain j where j: "j < length sett" "sett ! j = t"
    by (auto simp: in_set_conv_nth)
  from spec_correction_scan_finds [OF srt range j]
  obtain i where i: "spec_correction_scan sett g t = Some (int i)" "i < length sett" "sett ! i = t"
    by blast
  then have "found_index (tricksearch_rec sett (Num g) (Num t)) = Some (int i)"
    by (simp add: tricksearch_rec_refines_scan)
  then have "tricksearch_rec sett (Num g) (Num t) = Num (int i)"
    by (cases "tricksearch_rec sett (Num g) (Num t)") (simp_all split: if_splits)
  with i show ?thesis by blast
qed

text \<open>
  Claim C5. A guess outside \<open>[0, N)\<close> ends the search at once with a result that
  reports nothing found, and nothing is thrown: the model of neither function has an
  error branch, every read outside the array being \<open>undefined\<close>. The iterative
  tricksearch of index.js returns \<open>undefined\<close>, for every target; the recursive one
  returns \<open>-1\<close>, and \<open>undefined\<close> for the guess \<open>N\<close>, for every integer target.
\<close>

theorem tricksearch_guess_out_of_range:
  "g < 0 \<or> int (length sett) \<le> g \<Longrightarrow>
   tricksearch sett (Num g) target = Undefined
   \<and> found_index (tricksearch sett (Num g) target) = None
   \<and> tricksearch_rec sett (Num g) (Num t)
       = (if g = int (length sett) then Undefined else Num (- 1))
   \<and> found_index (tricksearch_rec sett (Num g) (Num t)) = None"
proof -
  assume out: "g < 0 \<or> int (length sett) \<le> g"
  have iter: "tricksearch sett (Num g) target = Undefined"
    using out by (rule tricksearch_outside)
  have rec: "tricksearch_rec sett (Num g) (Num t)
       = (if g = int (length sett) then Undefined else Num (- 1))"
    using out by (rule tricksearch_rec_outside) simp
  show ?thesis
    using iter rec by simp
qed

theorem tricksearch_guess_out_of_range_witness:
  "((- 2 :: int) < 0 \<or> int (length [1, 2, 3 :: int]) \<le> - 2)
   \<and> tricksearch [1, 2, 3] (Num (- 2)) (Num 2) = Undefined
   \<and> tricksearch_rec [1, 2, 3] (Num (- 2)) (Num 2) = Num (- 1)
   \<and> ((3 :: int) < 0 \<or> int (length [1, 2, 3 :: int]) \<le> 3)
   \<and> tricksearch [1, 2, 3] (Num 3) (Num 2) = Undefined
   \<and> tricksearch_rec [1, 2, 3] (Num 3) (Num 2) = Undefined"
  using tricksearch_guess_out_of_range [of "- 2" "[1, 2, 3]" "Num 2" 2]
    tricksearch_guess_out_of_range [of 3 "[1, 2, 3]" "Num 2" 2]
  by simp

text \<open>
  Claim C2. The iterative tricksearch of index.js does not follow the correction scan:
  from the guess 2 in \<open>[1, 2, 3]\<close> it does not retreat to the key 1 at index 0 but
  returns \<open>-1\<close>, and on the exact hit of the key 2 at the guess 1 it returns
  \<open>undefined\<close>; only the advance from below agrees with the scan. The recursive
  tricksearch of the earlier variant returns what the scan does.
\<close>

theorem tricksearch_never_retreats:
  "tricksearch [1, 2, 3] (Num 2) (Num 1) = Num (- 1)
   \<and> spec_correction_scan [1, 2, 3] 2 1 = Some 0
   \<and> tricksearch_rec [1, 2, 3] (Num 2) (Num 1) = Num 0
   \<and> tricksearch [1, 2, 3] (Num 1) (Num 2) = Undefined
   \<and> spec_correction_scan [1, 2, 3] 1 2 = Some 1
   \<and> tricksearch_rec [1, 2, 3] (Num 1) (Num 2) = Num 1
   \<and> tricksearch [1, 2, 3] (Num 0) (Num 3) = Num 2
   \<and> spec_correction_scan [1, 2, 3] 0 3 = Some 2"
proof -
  have stays: "scan_while [1, 2, 3] (Num 2) (Num 1) = Num 2"
    by (simp add: scan_while.simps)
  have above: "tricksearch [1, 2, 3] (Num 2) (Num 1) = Num (- 1)"
    by (simp add: tricksearch_def stays)
  have hit: "tricksearch [1, 2, 3] (Num 1) (Num 2) = Undefined"
    by (simp add: tricksearch_def)
  have advances: "scan_while [1, 2, 3] (Num 0) (Num 3) = Num 2"
    by (simp add: scan_while.simps)
  have below: "tricksearch [1, 2, 3] (Num 0) (Num 3) = Num 2"
    by (simp add: tricksearch_def advances)
  have scan: "spec_correction_scan [1, 2, 3] 2 1 = Some 0" "spec_correction_scan [1, 2, 3] 1 2 = Some 1"
    "spec_correction_scan [1, 2, 3] 0 3 = Some 2"
    by (simp_all add: spec_correction_scan.simps)
  have rec: "tricksearch_rec [1, 2, 3] (Num 2) (Num 1) = Num 0"
    "tricksearch_rec [1, 2, 3] (Num 1) (Num 2) = Num 1"
    by (simp_all add: tricksearch_rec.simps)
  show ?thesis
    using above hit below scan rec by simp
qed

section \<open>Properties of the binary search\<close>

lemma mid_bounds: "(lo::int) \<le> hi \<Longrightarrow> lo \<le> (hi - lo) div 2 + lo \<and> (hi - lo) div 2 + lo \<le> hi"
  by auto

lemma binsearch_loop_sound:
  "0 \<le> lo \<Longrightarrow> hi < int (length nums) \<Longrightarrow> target = Num t \<Longrightarrow>
   binsearch_loop nums target lo hi = Num (- 1) \<or>
   (\<exists>m. binsearch_loop nums target lo hi = Num m \<and> lo \<le> m \<and> m \<le> hi \<and> nums ! nat m = t)"
proof (induction nums target lo hi rule: binsearch_loop.induct)
  case (1 nums target lo hi)
  show ?case
  proof (cases "lo \<le> hi")
    case False
    then have "binsearch_loop nums target lo hi = Num (- 1)"
      by (subst binsearch_loop.simps) simp
    then show ?thesis by simp
  next
    case True
    define mid where "mid = (hi - lo) div 2 + lo"
    have mid: "lo \<le> mid \<and> mid \<le> hi"
      using True mid_bounds by (simp add: mid_def)
    have get: "js_get nums (Num mid) = Num (nums ! nat mid)"
      using mid "1.prems" by simp
    show ?thesis
    proof (cases "nums ! nat mid = t")
      case eq: True
      have "binsearch_loop nums target lo hi = Num mid"
        using True get eq "1.prems"(3)
        by (subst binsearch_loop.simps) (simp add: mid_def [symmetric] del: js_get.simps)
      then show ?thesis using mid eq by blast
    next
      case neq: False
      show ?thesis
      proof (cases "nums ! nat mid > t")
        case gt: True
        have step: "binsearch_loop nums target lo hi = binsearch_loop nums target lo (mid - 1)"
          using True get neq gt "1.prems"(3)
          by (subst binsearch_loop.simps) (simp add: mid_def [symmetric] del: js_get.simps)
        have "binsearch_loop nums target lo (mid - 1) = Num (- 1) \<or>
          (\<exists>m. binsearch_loop nums target lo (mid - 1) = Num m \<and> lo \<le> m \<and> m \<le> mid - 1 \<and> nums ! nat m = t)"
          using "1.IH"(1) [OF True] get neq gt "1.prems" mid
          by (simp add: mid_def [symmetric] del: js_get.simps)
        then show ?thesis using step mid by auto
      next
        case ngt: False
        have step: "binsearch_loop nums target lo hi = binsearch_loop nums target (mid + 1) hi"
          using True get neq ngt "1.prems"(3)
          by (subst binsearch_loop.simps) (simp add: mid_def [symmetric] del: js_get.simps)
        have "binsearch_loop nums target (mid + 1) hi = Num (- 1) \<or>
          (\<exists>m. binsearch_loop nums target (mid + 1) hi = Num m \<and> mid + 1 \<le> m \<and> m \<le> hi \<and> nums ! nat m = t)"
          using "1.IH"(2) [OF True] get neq ngt "1.prems" mid
          by (simp add: mid_def [symmetric] del: js_get.simps)
        then show ?thesis using step mid by auto
      qed
    qed
  qed
qed


lemma binsearch_loop_complete:
  "sorted nums \<Longrightarrow> 0 \<le> lo \<Longrightarrow> hi < int (length nums) \<Longrightarrow> target = Num t \<Longrightarrow>
   lo \<le> i \<Longrightarrow> i \<le> hi \<Longrightarrow> nums ! nat i = t \<Longrightarrow>
   binsearch_loop nums target lo hi \<noteq> Num (- 1)"
proof (induction nums target lo hi rule: binsearch_loop.induct)
  case (1 nums target lo hi)
  have True: "lo \<le> hi"
    using "1.prems" by simp
  define mid where "mid = (hi - lo) div 2 + lo"
  have mid: "lo \<le> mid \<and> mid \<le> hi"
    using True mid_bounds by (simp add: mid_def)
  have get: "js_get nums (Num mid) = Num (nums ! nat mid)"
    using mid "1.prems" by simp
  show ?case
  proof (cases "nums ! nat mid = t")
    case eq: True
    have "binsearch_loop nums target lo hi = Num mid"
      using True get eq "1.prems"(4)
      by (subst binsearch_loop.simps) (simp add: mid_def [symmetric] del: js_get.simps)
    then show ?thesis using mid "1.prems"(2) by simp
  next
    case neq: False
    show ?thesis
    proof (cases "nums ! nat mid > t")
      case gt: True
      have step: "binsearch_loop nums target lo hi = binsearch_loop nums target lo (mid - 1)"
        using True get neq gt "1.prems"(4)
        by (subst binsearch_loop.simps) (simp add: mid_def [symmetric] del: js_get.simps)
      have "i < mid"
      proof (rule ccontr)
        assume "\<not> i < mid"
        then have "nat mid \<le> nat i" and "nat i < length nums"
          using "1.prems" mid by auto
        then have "nums ! nat mid \<le> nums ! nat i"
          using "1.prems"(1) by (simp add: sorted_nth_mono)
        then show False using gt "1.prems"(7) by simp
      qed
      then have "binsearch_loop nums target lo (mid - 1) \<noteq> Num (- 1)"
        using "1.IH"(1) [OF True] get neq gt "1.prems" mid
        by (simp add: mid_def [symmetric] del: js_get.simps)
      then show ?thesis using step by simp
    next
      case ngt: False
      have step: "binsearch_loop nums target lo hi = binsearch_loop nums target (mid + 1) hi"
        using True get neq ngt "1.prems"(4)
        by (subst binsearch_loop.simps) (simp add: mid_def [symmetric] del: js_get.simps)
      have "mid < i"
      proof (rule ccontr)
        assume "\<not> mid < i"
        then have "nat i \<le> nat mid" and "nat mid < length nums"
          using "1.prems" mid by auto
        then have "nums ! nat i \<le> nums ! nat mid"
          using "1.prems"(1) by (simp add: sorted_nth_mono)
        then show False using neq ngt "1.prems"(7) by simp
      qed
      then have "binsearch_loop nums target (mid + 1) hi \<noteq> Num (- 1)"
        using "1.IH"(2) [OF True] get neq ngt "1.prems" mid
        by (simp add: mid_def [symmetric] del: js_get.simps)
      then show ?thesis using step by simp
    qed
  qed
qed

lemma binsearch_absent:
  "t \<notin> set nums \<Longrightarrow> binsearch nums (Num t) = Num (- 1)"
proof -
  assume absent: "t \<notin> set nums"
  have "binsearch nums (Num t) = Num (- 1) \<or>
    (\<exists>m. binsearch nums (Num t) = Num m \<and> 0 \<le> m \<and> m \<le> int (length nums) - 1 \<and> nums ! nat m = t)"
    unfolding binsearch_def by (rule binsearch_loop_sound) simp_all
  moreover have "nums ! nat m \<noteq> t" if "0 \<le> m" "m \<le> int (length nums) - 1" for m
  proof -
    have "nat m < length nums" using that by simp
    then have "nums ! nat m \<in> set nums" by (rule nth_mem)
    with absent show ?thesis by auto
  qed
  ultimately show ?thesis by blast
qed

lemma binsearch_present:
  "sorted nums \<Longrightarrow> t \<in> set nums \<Longrightarrow>
   \<exists>i. binsearch nums (Num t) = Num (int i) \<and> i < length nums \<and> nums ! i = t"
proof -
  assume srt: "sorted nums" and present: "t \<in> set nums"
  from present obtain j where j: "j < length nums" "nums ! j = t"
    by (auto simp: in_set_conv_nth)
  have sound: "binsearch nums (Num t) = Num (- 1) \<or>
    (\<exists>m. binsearch nums (Num t) = Num m \<and> 0 \<le> m \<and> m \<le> int (length nums) - 1 \<and> nums ! nat m = t)"
    unfolding binsearch_def by (rule binsearch_loop_sound) simp_all
  have "binsearch nums (Num t) \<noteq> Num (- 1)"
    unfolding binsearch_def
    by (rule binsearch_loop_complete [where i = "int j" and t = t]) (use srt j in simp_all)
  with sound obtain m where m: "binsearch nums (Num t) = Num m" "0 \<le> m"
    "m \<le> int (length nums) - 1" "nums ! nat m = t"
    by blast
  then have "binsearch nums (Num t) = Num (int (nat m)) \<and> nat m < length nums \<and> nums ! nat m = t"
    by simp
  then show ?thesis by blast
qed

text \<open>
  Claim C4. On an ascending array binsearch returns an index holding the target when the
  target occurs, and \<open>-1\<close> when it does not. The population \<open>[5, 1, 3, 2, 4]\<close> is
  built into \<open>[1, 2, 3, 4, 5]\<close>, where the lookup of 3 returns 2 and the lookup of 10
  returns \<open>-1\<close>.
\<close>

theorem binsearch_correct:
  "sorted A \<Longrightarrow>
   (t \<in> set A \<longrightarrow> (\<exists>i. binsearch A (Num t) = Num (int i) \<and> i < length A \<and> A ! i = t))
   \<and> (t \<notin> set A \<longrightarrow> binsearch A (Num t) = Num (- 1))
   \<and> js_sort compare_fn [5, 1, 3, 2, 4] = [1, 2, 3, 4, 5]
   \<and> binsearch (js_sort compare_fn [5, 1, 3, 2, 4]) (Num 3) = Num 2
   \<and> binsearch (js_sort compare_fn [5, 1, 3, 2, 4]) (Num 10) = Num (- 1)"
proof -
  assume srt: "sorted A"
  have build: "js_sort compare_fn [5, 1, 3, 2, 4] = [1, 2, 3, 4, 5]"
    by (simp add: js_sort_def compare_fn_def)
  have three: "binsearch [1, 2, 3, 4, 5] (Num 3) = Num 2"
    by (simp add: binsearch_def binsearch_loop.simps)
  have ten: "binsearch [1, 2, 3, 4, 5] (Num 10) = Num (- 1)"
    by (simp add: binsearch_def binsearch_loop.simps)
  show ?thesis
    using binsearch_present [OF srt, of t] binsearch_absent [of t A] build three ten
    by simp
qed

theorem binsearch_correct_witness:
  "sorted [1, 2, 2, 5 :: int]
   \<and> (2::int) \<in> set [1, 2, 2, 5]
   \<and> (\<exists>i. binsearch [1, 2, 2, 5] (Num 2) = Num (int i) \<and> i < length [1, 2, 2, 5 :: int]
          \<and> [1, 2, 2, 5 :: int] ! i = 2)
   \<and> (3::int) \<notin> set [1, 2, 2, 5]
   \<and> binsearch [1, 2, 2, 5] (Num 3) = Num (- 1)"
proof -
  have srt: "sorted [1, 2, 2, 5 :: int]"
    by simp
  show ?thesis
    using srt binsearch_correct [OF srt, of 2] binsearch_correct [OF srt, of 3]
    by simp
qed

section \<open>Properties of the hash map\<close>

lemma hashtable_lookup_eq:
  "hashtable_lookup m k = (case m k of Some pos \<Rightarrow> Num pos | None \<Rightarrow> Num (- 1))"
  by (simp add: hashtable_lookup_def map_has_def map_get_def split: option.splits)

lemma hashtable_build_loop_skip:
  "(\<forall>j. i \<le> j \<and> j < length P \<longrightarrow> P ! j \<noteq> k) \<Longrightarrow>
   hashtable_build_loop P i m (Num k) = m (Num k)"
proof (induction P i m rule: hashtable_build_loop.induct)
  case (1 P i m)
  show ?case
  proof (cases "i < length P")
    case False
    then show ?thesis by (subst hashtable_build_loop.simps) simp
  next
    case True
    have here: "P ! i \<noteq> k"
      using "1.prems" True by simp
    have "hashtable_build_loop P i m (Num k)
        = hashtable_build_loop P (Suc i) (m(Num (P ! i) \<mapsto> int i)) (Num k)"
      using True by (subst hashtable_build_loop.simps) (simp add: js_get_nth del: js_get.simps)
    also have "\<dots> = (m(Num (P ! i) \<mapsto> int i)) (Num k)"
    proof -
      have "\<forall>j. Suc i \<le> j \<and> j < length P \<longrightarrow> P ! j \<noteq> k"
        using "1.prems" by simp
      then show ?thesis
        using "1.IH" [OF True, unfolded js_get_nth [OF True]] by blast
    qed
    also have "\<dots> = m (Num k)"
      using here by simp
    finally show ?thesis .
  qed
qed

lemma hashtable_build_loop_last:
  "i \<le> j \<Longrightarrow> j < length P \<Longrightarrow> P ! j = k \<Longrightarrow>
   (\<forall>j'. j < j' \<and> j' < length P \<longrightarrow> P ! j' \<noteq> k) \<Longrightarrow>
   hashtable_build_loop P i m (Num k) = Some (int j)"
proof (induction P i m rule: hashtable_build_loop.induct)
  case (1 P i m)
  have True: "i < length P"
    using "1.prems" by simp
  have step: "hashtable_build_loop P i m (Num k)
      = hashtable_build_loop P (Suc i) (m(Num (P ! i) \<mapsto> int i)) (Num k)"
    using True by (subst hashtable_build_loop.simps) (simp add: js_get_nth del: js_get.simps)
  show ?case
  proof (cases "i = j")
    case True
    have "hashtable_build_loop P (Suc i) (m(Num (P ! i) \<mapsto> int i)) (Num k)
        = (m(Num (P ! i) \<mapsto> int i)) (Num k)"
      using "1.prems"(4) True by (intro hashtable_build_loop_skip) simp
    then show ?thesis using step True "1.prems"(3) by simp
  next
    case False
    then have "Suc i \<le> j" using "1.prems"(1) by simp
    then have "hashtable_build_loop P (Suc i) (m(Num (P ! i) \<mapsto> int i)) (Num k) = Some (int j)"
      using "1.IH" [OF True, unfolded js_get_nth [OF True]] "1.prems"(2,3,4) by blast
    then show ?thesis using step by simp
  qed
qed

lemma hashtable_lookup_absent:
  "k \<notin> set P \<Longrightarrow> hashtable_lookup (hashtable_build P) (Num k) = Num (- 1)"
proof -
  assume "k \<notin> set P"
  then have "\<forall>j. 0 \<le> j \<and> j < length P \<longrightarrow> P ! j \<noteq> k"
    by auto
  then have "hashtable_build P (Num k) = None"
    unfolding hashtable_build_def by (simp add: hashtable_build_loop_skip)
  then show ?thesis by (simp add: hashtable_lookup_eq)
qed

lemma hashtable_lookup_present:
  "k \<in> set P \<Longrightarrow>
   hashtable_lookup (hashtable_build P) (Num k) = Num (int (Max {i. i < length P \<and> P ! i = k}))"
proof -
  assume present: "k \<in> set P"
  define S where "S = {i. i < length P \<and> P ! i = k}"
  have fin: "finite S" by (simp add: S_def)
  have ne: "S \<noteq> {}" using present by (auto simp: S_def in_set_conv_nth)
  have inS: "Max S \<in> S" using fin ne by (rule Max_in)
  have top: "\<forall>j'. Max S < j' \<and> j' < length P \<longrightarrow> P ! j' \<noteq> k"
  proof (intro allI impI)
    fix j' assume j': "Max S < j' \<and> j' < length P"
    show "P ! j' \<noteq> k"
    proof
      assume "P ! j' = k"
      then have "j' \<in> S" using j' by (simp add: S_def)
      then have "j' \<le> Max S" using fin by simp
      then show False using j' by simp
    qed
  qed
  have inS': "Max S < length P" "P ! Max S = k"
    using inS by (simp_all add: S_def)
  have "hashtable_build_loop P 0 Map.empty (Num k) = Some (int (Max S))"
    by (rule hashtable_build_loop_last [OF _ inS' top]) simp
  then show ?thesis
    unfolding hashtable_build_def hashtable_lookup_eq S_def by simp
qed

lemma hashtable_build_empty: "hashtable_build [] = Map.empty"
  by (simp add: hashtable_build_def hashtable_build_loop.simps)

text \<open>
  Claim C3. After the build over a population \<open>P\<close> the lookup of a key occurring in
  \<open>P\<close> returns the largest position at which \<open>P\<close> holds the key, and the lookup of
  a key not occurring in \<open>P\<close> returns \<open>-1\<close>.
\<close>

theorem hashtable_lookup_last_position:
  "(k \<in> set P \<longrightarrow>
      (\<exists>i. i < length P \<and> P ! i = k \<and> (\<forall>j. j < length P \<and> P ! j = k \<longrightarrow> j \<le> i)
         \<and> hashtable_lookup (hashtable_build P) (Num k) = Num (int i)))
   \<and> (k \<notin> set P \<longrightarrow> hashtable_lookup (hashtable_build P) (Num k) = Num (- 1))"
proof (intro conjI impI)
  assume present: "k \<in> set P"
  define S where "S = {i. i < length P \<and> P ! i = k}"
  have fin: "finite S" by (simp add: S_def)
  have ne: "S \<noteq> {}" using present by (auto simp: S_def in_set_conv_nth)
  have "Max S \<in> S" using fin ne by (rule Max_in)
  then have pos: "Max S < length P \<and> P ! Max S = k"
    by (simp add: S_def)
  have top: "\<forall>j. j < length P \<and> P ! j = k \<longrightarrow> j \<le> Max S"
    using fin by (simp add: S_def)
  have "hashtable_lookup (hashtable_build P) (Num k) = Num (int (Max S))"
    unfolding S_def using present by (rule hashtable_lookup_present)
  with pos top show "\<exists>i. i < length P \<and> P ! i = k \<and> (\<forall>j. j < length P \<and> P ! j = k \<longrightarrow> j \<le> i)
         \<and> hashtable_lookup (hashtable_build P) (Num k) = Num (int i)"
    by blast
next
  assume "k \<notin> set P"
  then show "hashtable_lookup (hashtable_build P) (Num k) = Num (- 1)"
    by (rule hashtable_lookup_absent)
qed

theorem hashtable_lookup_last_position_witness:
  "(7::int) \<in> set [7, 3, 7]
   \<and> hashtable_lookup (hashtable_build [7, 3, 7]) (Num 7) = Num 2
   \<and> (4::int) \<notin> set [7, 3, 7]
   \<and> hashtable_lookup (hashtable_build [7, 3, 7]) (Num 4) = Num (- 1)"
proof -
  have present: "(7::int) \<in> set [7, 3, 7]" and absent: "(4::int) \<notin> set [7, 3, 7]"
    by simp_all
  from hashtable_lookup_last_position [of 7 "[7, 3, 7]"] present
  obtain i where i: "i < length [7, 3, 7 :: int]"
      "\<forall>j. j < length [7, 3, 7 :: int] \<and> [7, 3, 7 :: int] ! j = 7 \<longrightarrow> j \<le> i"
      "hashtable_lookup (hashtable_build [7, 3, 7]) (Num 7) = Num (int i)"
    by blast
  from i(2) have "2 \<le> i" by simp
  with i(1) have "i = 2" by simp
  with i(3) have found: "hashtable_lookup (hashtable_build [7, 3, 7]) (Num 7) = Num 2"
    by simp
  from hashtable_lookup_last_position [of 4 "[7, 3, 7]"] absent
  have "hashtable_lookup (hashtable_build [7, 3, 7]) (Num 4) = Num (- 1)"
    by blast
  with present absent found show ?thesis by blast
qed

section \<open>Properties of the sorted-array build\<close>

lemma insert_by_insort: "insert_by compare_fn x ys = insort x ys"
  by (induction ys) (simp_all add: compare_fn_def)

lemma js_sort_sort: "js_sort compare_fn xs = sort xs"
proof -
  have "insert_by compare_fn = insort"
    by (intro ext) (rule insert_by_insort)
  then show ?thesis by (simp add: js_sort_def sort_key_def)
qed

lemma sorted_array_build_result:
  "dataset_ref < length h \<Longrightarrow>
   sorted_array_build h dataset_ref
     = (h @ [sort (h ! dataset_ref), sort (h ! dataset_ref), sort (h ! dataset_ref)],
        length h + 2)"
  by (simp add: sorted_array_build_def slice0_def sort_in_place_def js_sort_sort nth_append
      list_update_append)

lemma sorted_array_build_earlier_result:
  "dataset_ref < length h \<Longrightarrow>
   sorted_array_build_earlier h dataset_ref = (h[dataset_ref := sort (h ! dataset_ref)], dataset_ref)"
  by (simp add: sorted_array_build_earlier_def sort_in_place_def js_sort_sort sorted_sort_id)

lemma sorted_array_build_frame:
  "dataset_ref < length h \<Longrightarrow> r < length h \<Longrightarrow>
   fst (sorted_array_build h dataset_ref) ! r = h ! r"
  by (simp add: sorted_array_build_result nth_append)

lemma sorted_array_build_copy:
  "dataset_ref < length h \<Longrightarrow>
   snd (sorted_array_build h dataset_ref) \<noteq> dataset_ref
   \<and> fst (sorted_array_build h dataset_ref) ! snd (sorted_array_build h dataset_ref)
       = sort (h ! dataset_ref)"
  by (simp add: sorted_array_build_result nth_append)

text \<open>
  Claim C8. The array built by the build phase has as many elements as the population
  and is ordered: each element is at most its right neighbour.
\<close>

theorem sorted_array_build_ordered:
  "dataset_ref < length h \<Longrightarrow> sorted_array_build h dataset_ref = (h', array) \<Longrightarrow>
   length (h' ! array) = length (h ! dataset_ref)
   \<and> (\<forall>i. i + 1 < length (h ! dataset_ref) \<longrightarrow> h' ! array ! i \<le> h' ! array ! (i + 1))"
proof -
  assume valid: "dataset_ref < length h" and build: "sorted_array_build h dataset_ref = (h', array)"
  have arr: "h' ! array = sort (h ! dataset_ref)"
    using sorted_array_build_copy [OF valid] build by simp
  have "sort (h ! dataset_ref) ! i \<le> sort (h ! dataset_ref) ! (i + 1)"
    if "i + 1 < length (h ! dataset_ref)" for i
    using that by (intro sorted_nth_mono) simp_all
  then show ?thesis using arr by simp
qed

theorem sorted_array_build_ordered_witness:
  "(0::nat) < length [[5, 1, 3, 2, 4 :: int]]
   \<and> sorted_array_build [[5, 1, 3, 2, 4]] 0
       = ([[5, 1, 3, 2, 4], [1, 2, 3, 4, 5], [1, 2, 3, 4, 5], [1, 2, 3, 4, 5]], 3)
   \<and> length ([[5, 1, 3, 2, 4], [1, 2, 3, 4, 5], [1, 2, 3, 4, 5], [1, 2, 3, 4, 5 :: int]] ! 3)
       = length ([[5, 1, 3, 2, 4 :: int]] ! 0)
   \<and> (2::nat) + 1 < length ([[5, 1, 3, 2, 4 :: int]] ! 0)
   \<and> [[5, 1, 3, 2, 4], [1, 2, 3, 4, 5], [1, 2, 3, 4, 5], [1, 2, 3, 4, 5 :: int]] ! 3 ! 2
       \<le> [[5, 1, 3, 2, 4], [1, 2, 3, 4, 5], [1, 2, 3, 4, 5], [1, 2, 3, 4, 5]] ! 3 ! (2 + 1)"
proof -
  have valid: "(0::nat) < length [[5, 1, 3, 2, 4 :: int]]"
    by simp
  have build: "sorted_array_build [[5, 1, 3, 2, 4]] 0
       = ([[5, 1, 3, 2, 4], [1, 2, 3, 4, 5], [1, 2, 3, 4, 5], [1, 2, 3, 4, 5]], 3)"
    by (simp add: sorted_array_build_def slice0_def sort_in_place_def js_sort_def compare_fn_def)
  have inside: "(2::nat) + 1 < length ([[5, 1, 3, 2, 4 :: int]] ! 0)"
    by simp
  show ?thesis
    using valid build inside sorted_array_build_ordered [OF valid build] by blast
qed

text \<open>
  Claim C7. The build phase of the earlier variant sorts the shared dataset itself: after
  it the dataset \<open>[5, 1, 3, 2, 4]\<close> is \<open>[1, 2, 3, 4, 5]\<close>. The build phase of index.js
  sorts copies and leaves the dataset as it was.
\<close>

theorem sorted_array_build_earlier_reorders_dataset:
  "sorted_array_build_earlier [[5, 1, 3, 2, 4]] 0 = ([[1, 2, 3, 4, 5]], 0)
   \<and> fst (sorted_array_build_earlier [[5, 1, 3, 2, 4]] 0) ! 0 \<noteq> [[5, 1, 3, 2, 4]] ! 0
   \<and> fst (sorted_array_build [[5, 1, 3, 2, 4]] 0) ! 0 = [[5, 1, 3, 2, 4]] ! 0"
  by (simp add: sorted_array_build_earlier_def sorted_array_build_def slice0_def
      sort_in_place_def js_sort_def compare_fn_def)

section \<open>Properties of the timed query passes\<close>

lemma query_loop_total:
  "query_loop (\<lambda>k. Inr (f k)) ts num index
     = Inr (map (\<lambda>i. (js_get ts (Num (int i)), f (js_get ts (Num (int i))))) [index..<num])"
proof (induction "\<lambda>k. (Inr (f k) :: jserror + 'a)" ts num index rule: query_loop.induct)
  case (1 ts num index)
  show ?case
  proof (cases "index < num")
    case False
    then show ?thesis by (subst query_loop.simps) simp
  next
    case True
    have "query_loop (\<lambda>k. Inr (f k)) ts num (Suc index)
       = Inr (map (\<lambda>i. (js_get ts (Num (int i)), f (js_get ts (Num (int i))))) [Suc index..<num])"
      using True by (rule "1.hyps") simp
    then show ?thesis
      using True
      by (subst query_loop.simps) (simp add: upt_conv_Cons del: js_get.simps)
  qed
qed

lemma testset_reads:
  "map (\<lambda>i. js_get ts (Num (int i))) [0..<num]
     = map Num (take num ts) @ replicate (num - length ts) Undefined"
  by (rule nth_equalityI) (auto simp: nth_append)

lemma lookup_keys_total:
  "lookup_keys (query_loop (\<lambda>k. Inr (f k)) ts num 0)
     = map Num (take num ts) @ replicate (num - length ts) Undefined"
  by (simp add: lookup_keys_def query_loop_total comp_def testset_reads del: js_get.simps)

lemma query_loop_throws:
  "0 < num \<Longrightarrow> query_loop (\<lambda>k. Inl e) ts num 0 = Inl e"
  by (subst query_loop.simps) simp

lemma js_sort_empty: "js_sort cmp [] = []"
  by (simp add: js_sort_def)

lemma empty_population_lookups:
  "\<not> map_has (hashtable_build []) k
   \<and> hashtable_lookup (hashtable_build []) k = Num (- 1)
   \<and> binsearch (js_sort compare_fn []) k = Num (- 1)
   \<and> tricksearch (js_sort compare_fn []) g k = Undefined
   \<and> hashtable_query num initial_state = Inr (replicate num (Undefined, Num (- 1)))
   \<and> binarysearch_query num initial_state = Inr (replicate num (Undefined, Num (- 1)))
   \<and> trick_uniform_query initial_state = Inr (replicate num_uni (Undefined, Undefined))"
proof -
  have has: "\<not> map_has (hashtable_build []) k"
    by (simp add: hashtable_build_def hashtable_build_loop.simps map_has_def)
  have hash: "hashtable_lookup (hashtable_build []) k = Num (- 1)" for k
    by (simp add: hashtable_build_def hashtable_build_loop.simps hashtable_lookup_eq)
  have bin: "binsearch (js_sort compare_fn []) k = Num (- 1)" for k
    by (simp add: js_sort_empty binsearch_def binsearch_loop.simps)
  have trick: "tricksearch (js_sort compare_fn []) g k = Undefined" for g k
    by (simp add: js_sort_empty tricksearch_empty)
  have reads: "map (\<lambda>i. (js_get [] (Num (int i)), c)) [0..<n] = replicate n (Undefined, c)"
    for n and c :: jsval
    by (rule nth_equalityI) simp_all
  show ?thesis
    using has hash bin trick
    by (simp add: hashtable_query_def binarysearch_query_def trick_uniform_query_def
        initial_state_def query_loop_total reads del: js_get.simps)
qed

lemma query_loop_returns:
  "(\<forall>i. index \<le> i \<and> i < num \<longrightarrow>
      lookup (js_get ts (Num (int i))) = Inr (f (js_get ts (Num (int i))))) \<Longrightarrow>
   query_loop lookup ts num index
     = Inr (map (\<lambda>i. (js_get ts (Num (int i)), f (js_get ts (Num (int i))))) [index..<num])"
proof (induction lookup ts num index rule: query_loop.induct)
  case (1 lookup ts num index)
  show ?case
  proof (cases "index < num")
    case False
    then show ?thesis by (subst query_loop.simps) simp
  next
    case True
    have here: "lookup (js_get ts (Num (int index))) = Inr (f (js_get ts (Num (int index))))"
      using "1.prems" True by simp
    have rest: "\<forall>i. Suc index \<le> i \<and> i < num \<longrightarrow>
        lookup (js_get ts (Num (int i))) = Inr (f (js_get ts (Num (int i))))"
      using "1.prems" by simp
    have "query_loop lookup ts num (Suc index)
       = Inr (map (\<lambda>i. (js_get ts (Num (int i)), f (js_get ts (Num (int i))))) [Suc index..<num])"
      using True here rest by (rule "1.IH")
    then show ?thesis
      using True here
      by (subst query_loop.simps) (simp add: upt_conv_Cons del: js_get.simps)
  qed
qed

lemma query_loop_aborts:
  "index \<le> j \<Longrightarrow> j < num \<Longrightarrow>
   (\<forall>i. index \<le> i \<and> i < j \<longrightarrow>
      lookup (js_get ts (Num (int i))) = Inr (f (js_get ts (Num (int i))))) \<Longrightarrow>
   lookup (js_get ts (Num (int j))) = Inl e \<Longrightarrow>
   query_loop lookup ts num index = Inl e"
proof (induction lookup ts num index rule: query_loop.induct)
  case (1 lookup ts num index)
  have True: "index < num"
    using "1.prems" by simp
  show ?case
  proof (cases "index = j")
    case True
    then show ?thesis
      using "1.prems"(2,4) by (subst query_loop.simps) (simp del: js_get.simps)
  next
    case False
    then have before: "index < j"
      using "1.prems"(1) by simp
    then have here: "lookup (js_get ts (Num (int index))) = Inr (f (js_get ts (Num (int index))))"
      using "1.prems"(3) by simp
    have rest: "\<forall>i. Suc index \<le> i \<and> i < j \<longrightarrow>
        lookup (js_get ts (Num (int i))) = Inr (f (js_get ts (Num (int i))))"
      using "1.prems"(3) by simp
    have next_le: "Suc index \<le> j"
      using before by simp
    have "query_loop lookup ts num (Suc index) = Inl e"
      using True here next_le "1.prems"(2) rest "1.prems"(4) by (rule "1.IH")
    then show ?thesis
      using True here by (subst query_loop.simps) (simp del: js_get.simps)
  qed
qed

lemma avl_lookup_returns:
  "search k = Inr positions \<Longrightarrow>
   avl_lookup search k = Inr (if 0 < length positions then (2, Some positions) else (1, None))"
  by (simp add: avl_lookup_def)

lemma avl_lookup_throws:
  "search k = Inl e \<Longrightarrow> avl_lookup search k = Inl e"
  by (simp add: avl_lookup_def)

lemma avl_query_returns:
  "(\<forall>i. i < num \<longrightarrow>
      avl_search (dataset s) (js_get (testset s) (Num (int i)))
        = Inr (found (js_get (testset s) (Num (int i))))) \<Longrightarrow>
   avl_query avl_search num s
     = Inr (map (\<lambda>i. (js_get (testset s) (Num (int i)),
                   if 0 < length (found (js_get (testset s) (Num (int i))))
                   then (2, Some (found (js_get (testset s) (Num (int i))))) else (1, None)))
             [0..<num])"
proof -
  assume ok: "\<forall>i. i < num \<longrightarrow>
      avl_search (dataset s) (js_get (testset s) (Num (int i)))
        = Inr (found (js_get (testset s) (Num (int i))))"
  have "\<forall>i. 0 \<le> i \<and> i < num \<longrightarrow>
      avl_lookup (avl_search (dataset s)) (js_get (testset s) (Num (int i)))
        = Inr (if 0 < length (found (js_get (testset s) (Num (int i))))
               then (2, Some (found (js_get (testset s) (Num (int i))))) else (1, None))"
    using ok by (simp add: avl_lookup_returns del: js_get.simps)
  then show ?thesis
    unfolding avl_query_def
    by (rule query_loop_returns
        [where f = "\<lambda>k. if 0 < length (found k) then (2, Some (found k)) else (1, None)"])
qed

lemma avl_query_throws:
  "j < num \<Longrightarrow>
   (\<forall>i. i < j \<longrightarrow>
      avl_search (dataset s) (js_get (testset s) (Num (int i)))
        = Inr (found (js_get (testset s) (Num (int i))))) \<Longrightarrow>
   avl_search (dataset s) (js_get (testset s) (Num (int j))) = Inl e \<Longrightarrow>
   avl_query avl_search num s = Inl e"
proof -
  assume j: "j < num"
    and ok: "\<forall>i. i < j \<longrightarrow>
      avl_search (dataset s) (js_get (testset s) (Num (int i)))
        = Inr (found (js_get (testset s) (Num (int i))))"
    and throws: "avl_search (dataset s) (js_get (testset s) (Num (int j))) = Inl e"
  have before: "\<forall>i. 0 \<le> i \<and> i < j \<longrightarrow>
      avl_lookup (avl_search (dataset s)) (js_get (testset s) (Num (int i)))
        = Inr (if 0 < length (found (js_get (testset s) (Num (int i))))
               then (2, Some (found (js_get (testset s) (Num (int i))))) else (1, None))"
    using ok by (simp add: avl_lookup_returns del: js_get.simps)
  have at: "avl_lookup (avl_search (dataset s)) (js_get (testset s) (Num (int j))) = Inl e"
    using throws by (rule avl_lookup_throws)
  show ?thesis
    unfolding avl_query_def
    by (rule query_loop_aborts
        [where f = "\<lambda>k. if 0 < length (found k) then (2, Some (found k)) else (1, None)",
          OF _ j before at]) simp
qed


lemma lookup_keys_returns:
  "r = Inr (map (\<lambda>i. (js_get ts (Num (int i)), g i)) [0..<num]) \<Longrightarrow>
   lookup_keys r = map Num (take num ts) @ replicate (num - length ts) Undefined"
proof -
  assume "r = Inr (map (\<lambda>i. (js_get ts (Num (int i)), g i)) [0..<num])"
  then have "lookup_keys r = map (\<lambda>i. js_get ts (Num (int i))) [0..<num]"
    by (simp add: lookup_keys_def comp_def del: js_get.simps)
  then show ?thesis by (simp only: testset_reads)
qed

text \<open>
  Claim C9, the claim as stated fails: before any generation the query set is empty,
  and the timed pass of \<open>hashtable_normal\<close> still performs 20000 lookups, each of
  \<open>undefined\<close>.
\<close>

theorem query_pass_on_empty_testset:
  "testset initial_state = []
   \<and> lookup_keys (hashtable_query num_nor initial_state) = replicate 20000 Undefined
   \<and> lookup_keys (hashtable_query num_nor initial_state) \<noteq> map Num (testset initial_state)"
  by (simp add: hashtable_query_def lookup_keys_total initial_state_def num_nor_def)

text \<open>
  Claim C9, amended. The timed pass of a benchmark operation runs exactly \<open>num\<close>
  iterations, \<open>num\<close> being the configured count of the operation, and the \<open>i\<close>-th
  iteration looks up \<open>testset[i]\<close>: the first \<open>num\<close> entries of the query set in
  order, then \<open>undefined\<close> for every position past its end. An iteration is one lookup
  of its key: \<open>map.has\<close> and then \<open>map.get\<close>, one call of \<open>binsearch\<close> or
  \<open>tricksearch\<close>, or one call of \<open>avl.search\<close> and a second call with the same key
  when the first finds positions. This holds for \<open>trick_normal\<close> once a distribution
  has been generated (without one the pass throws at its first lookup), and for the AVL
  routes as long as \<open>avl.search\<close> throws on none of these keys: the pass ends at the
  first key on which it throws. When the query set has exactly \<open>num\<close> entries the keys
  are the entries of the query set, one iteration each, and no other.
\<close>

theorem query_pass_runs_num_lookups:
  "lookup_keys (hashtable_query num s)
     = map Num (take num (testset s)) @ replicate (num - length (testset s)) Undefined
   \<and> lookup_keys (binarysearch_query num s)
     = map Num (take num (testset s)) @ replicate (num - length (testset s)) Undefined
   \<and> lookup_keys (trick_uniform_query s)
     = map Num (take num_uni (testset s)) @ replicate (num_uni - length (testset s)) Undefined
   \<and> (distribution s = Some guess \<longrightarrow>
        lookup_keys (trick_normal_query s)
          = map Num (take num_nor (testset s)) @ replicate (num_nor - length (testset s)) Undefined)
   \<and> (distribution s = None \<longrightarrow> trick_normal_query s = Inl TypeError)
   \<and> ((\<forall>i. i < num \<longrightarrow>
          avl_search (dataset s) (js_get (testset s) (Num (int i)))
            = Inr (found (js_get (testset s) (Num (int i))))) \<longrightarrow>
        avl_query avl_search num s
          = Inr (map (\<lambda>i. (js_get (testset s) (Num (int i)),
                        if 0 < length (found (js_get (testset s) (Num (int i))))
                        then (2, Some (found (js_get (testset s) (Num (int i)))))
                        else (1, None)))
                  [0..<num])
        \<and> lookup_keys (avl_query avl_search num s)
          = map Num (take num (testset s)) @ replicate (num - length (testset s)) Undefined)
   \<and> (j < num
        \<and> (\<forall>i. i < j \<longrightarrow>
              avl_search (dataset s) (js_get (testset s) (Num (int i)))
                = Inr (found (js_get (testset s) (Num (int i)))))
        \<and> avl_search (dataset s) (js_get (testset s) (Num (int j))) = Inl e \<longrightarrow>
        avl_query avl_search num s = Inl e)
   \<and> (length (testset s) = num \<longrightarrow>
        map Num (take num (testset s)) @ replicate (num - length (testset s)) Undefined
          = map Num (testset s))"
proof -
  have hash: "lookup_keys (hashtable_query num s)
     = map Num (take num (testset s)) @ replicate (num - length (testset s)) Undefined"
    by (simp add: hashtable_query_def lookup_keys_total)
  have bin: "lookup_keys (binarysearch_query num s)
     = map Num (take num (testset s)) @ replicate (num - length (testset s)) Undefined"
    by (simp add: binarysearch_query_def lookup_keys_total)
  have uni: "lookup_keys (trick_uniform_query s)
     = map Num (take num_uni (testset s)) @ replicate (num_uni - length (testset s)) Undefined"
    by (simp add: trick_uniform_query_def lookup_keys_total)
  have nor: "lookup_keys (trick_normal_query s)
          = map Num (take num_nor (testset s)) @ replicate (num_nor - length (testset s)) Undefined"
    if "distribution s = Some guess"
    using that by (simp add: trick_normal_query_def lookup_keys_total)
  have none: "trick_normal_query s = Inl TypeError" if "distribution s = None"
    using that by (simp add: trick_normal_query_def query_loop_throws num_nor_def)
  have avl: "avl_query avl_search num s
          = Inr (map (\<lambda>i. (js_get (testset s) (Num (int i)),
                        if 0 < length (found (js_get (testset s) (Num (int i))))
                        then (2, Some (found (js_get (testset s) (Num (int i)))))
                        else (1, None)))
                  [0..<num])
        \<and> lookup_keys (avl_query avl_search num s)
          = map Num (take num (testset s)) @ replicate (num - length (testset s)) Undefined"
    if ok: "\<forall>i. i < num \<longrightarrow>
          avl_search (dataset s) (js_get (testset s) (Num (int i)))
            = Inr (found (js_get (testset s) (Num (int i))))"
  proof -
    note log = avl_query_returns [of num avl_search s found, OF ok]
    from log have "lookup_keys (avl_query avl_search num s)
          = map Num (take num (testset s)) @ replicate (num - length (testset s)) Undefined"
      by (rule lookup_keys_returns)
    with log show ?thesis by blast
  qed
  have throws: "avl_query avl_search num s = Inl e"
    if "j < num
        \<and> (\<forall>i. i < j \<longrightarrow>
              avl_search (dataset s) (js_get (testset s) (Num (int i)))
                = Inr (found (js_get (testset s) (Num (int i)))))
        \<and> avl_search (dataset s) (js_get (testset s) (Num (int j))) = Inl e"
    using that avl_query_throws [of j num avl_search s found e] by blast
  have full: "map Num (take num (testset s)) @ replicate (num - length (testset s)) Undefined
          = map Num (testset s)" if "length (testset s) = num"
    using that by simp
  show ?thesis
    using hash bin uni nor none avl throws full by blast
qed

theorem query_pass_runs_num_lookups_witness:
  "distribution \<lparr>dataset = [4, 8], testset = [8, 1], distribution = Some (\<lambda>k. Num 0)\<rparr>
     = Some (\<lambda>k. Num 0)
   \<and> lookup_keys (trick_normal_query
        \<lparr>dataset = [4, 8], testset = [8, 1], distribution = Some (\<lambda>k. Num 0)\<rparr>)
     = [Num 8, Num 1] @ replicate 19998 Undefined
   \<and> distribution \<lparr>dataset = [4, 8], testset = [8, 1], distribution = None\<rparr> = None
   \<and> trick_normal_query \<lparr>dataset = [4, 8], testset = [8, 1], distribution = None\<rparr>
     = Inl TypeError
   \<and> (if Num 8 = Undefined then Inl CompareError else Inr (if Num 8 = Num 8 then [1] else []))
     = (Inr [1] :: jserror + int list)
   \<and> (if Num 1 = Undefined then Inl CompareError else Inr (if Num 1 = Num 8 then [1] else []))
     = (Inr [] :: jserror + int list)
   \<and> avl_query
        (\<lambda>ds k. if k = Undefined then Inl CompareError else Inr (if k = Num 8 then [1] else []))
        2 \<lparr>dataset = [4, 8], testset = [8, 1], distribution = None\<rparr>
     = Inr [(Num 8, 2, Some [1]), (Num 1, 1, None)]
   \<and> (2::nat) < 3
   \<and> (if Undefined = Undefined then Inl CompareError
        else Inr (if Undefined = Num 8 then [1] else []))
     = (Inl CompareError :: jserror + int list)
   \<and> avl_query
        (\<lambda>ds k. if k = Undefined then Inl CompareError else Inr (if k = Num 8 then [1] else []))
        3 \<lparr>dataset = [4, 8], testset = [8, 1], distribution = None\<rparr>
     = Inl CompareError
   \<and> length (testset \<lparr>dataset = [4, 8], testset = [8, 1], distribution = None\<rparr>) = 2
   \<and> lookup_keys (hashtable_query 2
        \<lparr>dataset = [4, 8], testset = [8, 1], distribution = None\<rparr>)
     = [Num 8, Num 1]"
proof -
  define srch :: "int list \<Rightarrow> jsval \<Rightarrow> jserror + int list"
    where "srch = (\<lambda>ds k. if k = Undefined then Inl CompareError
                          else Inr (if k = Num 8 then [1] else []))"
  define found :: "jsval \<Rightarrow> int list" where "found = (\<lambda>k. if k = Num 8 then [1] else [])"
  define s where "s = \<lparr>dataset = [4, 8], testset = [8, 1], distribution = None\<rparr>"
  define s' where "s' = \<lparr>dataset = [4, 8], testset = [8, 1], distribution = Some (\<lambda>k. Num 0)\<rparr>"
  have keys: "js_get (testset s) (Num (int 0)) = Num 8" "js_get (testset s) (Num (int 1)) = Num 1"
    "js_get (testset s) (Num (int 2)) = Undefined"
    by (simp_all add: s_def)
  have ok: "\<forall>i. i < 2 \<longrightarrow>
      srch (dataset s) (js_get (testset s) (Num (int i)))
        = Inr (found (js_get (testset s) (Num (int i))))"
  proof (intro allI impI)
    fix i :: nat
    assume "i < 2"
    then consider "i = 0" | "i = 1"
      by linarith
    then show "srch (dataset s) (js_get (testset s) (Num (int i)))
        = Inr (found (js_get (testset s) (Num (int i))))"
      by cases (simp_all add: s_def srch_def found_def)
  qed
  have throws: "srch (dataset s) (js_get (testset s) (Num (int 2))) = Inl CompareError"
    by (simp add: s_def srch_def)
  have two: "[0..<2] = [0, 1::nat]"
    by (simp add: numeral_2_eq_2)
  note at_two = query_pass_runs_num_lookups [of 2 s "\<lambda>k. Num 0" srch found 2 CompareError]
  note at_three = query_pass_runs_num_lookups [of 3 s "\<lambda>k. Num 0" srch found 2 CompareError]
  note with_dist = query_pass_runs_num_lookups [of 2 s' "\<lambda>k. Num 0" srch found 2 CompareError]
  have log: "avl_query srch 2 s = Inr [(Num 8, 2, Some [1]), (Num 1, 1, None)]"
    using at_two ok by (simp add: two found_def s_def del: js_get.simps) (simp add: found_def)
  have abort: "avl_query srch 3 s = Inl CompareError"
    using at_three ok throws by simp
  have none: "trick_normal_query s = Inl TypeError"
    using at_two by (simp add: s_def)
  have hash: "lookup_keys (hashtable_query 2 s) = [Num 8, Num 1]"
    using at_two by (simp add: s_def)
  have nor: "lookup_keys (trick_normal_query s') = [Num 8, Num 1] @ replicate 19998 Undefined"
    using with_dist by (simp add: s'_def num_nor_def)
  show ?thesis
    using log abort none hash nor
    unfolding srch_def s_def s'_def by simp
qed

text \<open>
  Claim C6. Before any generation the timed pass of \<open>trick_normal\<close> throws at its first
  lookup: \<open>distribution\<close> is still undefined when \<open>distribution.cdf\<close> is read. (The other
  lookups on the empty population report nothing found, see \<open>empty_population_lookups\<close>.)
\<close>

theorem trick_normal_before_generation_throws:
  "dataset initial_state = [] \<and> testset initial_state = []
   \<and> distribution initial_state = None
   \<and> trick_normal_query initial_state = Inl TypeError"
proof -
  have state: "dataset initial_state = []" "testset initial_state = []"
    "distribution initial_state = None"
    by (simp_all add: initial_state_def)
  have enters: "0 < num_nor"
    by (simp add: num_nor_def)
  have "trick_normal_query initial_state = query_loop (\<lambda>k. Inl TypeError) [] num_nor 0"
    by (simp add: trick_normal_query_def state)
  also have "\<dots> = Inl TypeError"
    using enters by (rule query_loop_throws)
  finally show ?thesis
    using state by simp
qed

section \<open>A present key that the iterative tricksearch misses\<close>

text \<open>
  Claim C1. In the population \<open>[5]\<close> the key 5 is found by the hash map, by the binary
  search and by the recursive tricksearch, but the iterative tricksearch of index.js
  returns \<open>undefined\<close> from every guess: at the guess 0 the exact hit matches no
  branch, and every other guess is outside the array.
\<close>

theorem tricksearch_misses_key_at_guess:
  "tricksearch [5] g (Num 5) = Undefined
   \<and> hashtable_lookup (hashtable_build [5]) (Num 5) = Num 0
   \<and> binsearch (js_sort compare_fn [5]) (Num 5) = Num 0
   \<and> tricksearch_rec [5] (Num 0) (Num 5) = Num 0"
proof -
  have "tricksearch [5] g (Num 5) = Undefined"
  proof (cases "js_get [5] g = Num 5")
    case True
    then show ?thesis by (rule tricksearch_exact_hit)
  next
    case False
    then have "\<not> truthy (js_get [5] g)"
      by (cases g) (auto split: if_splits)
    then show ?thesis by (rule tricksearch_falsy)
  qed
  moreover have "hashtable_lookup (hashtable_build [5]) (Num 5) = Num 0"
    by (simp add: hashtable_build_def hashtable_build_loop.simps hashtable_lookup_eq)
  moreover have "binsearch (js_sort compare_fn [5]) (Num 5) = Num 0"
    by (simp add: js_sort_def binsearch_def binsearch_loop.simps)
  moreover have "tricksearch_rec [5] (Num 0) (Num 5) = Num 0"
    by (simp add: tricksearch_rec.simps)
  ultimately show ?thesis by blast
qed

end
